theory Spec2Isabelle
  imports Main "HOL-Library.Sublist" "HOL-Library.Char_ord" "HOL-Library.List_Lexorder"
begin


section \<open>Go strings and the string helpers the code calls\<close>

text \<open>
  A Go \<open>string\<close> is a sequence of bytes; it is modelled as \<^typ>\<open>string\<close> (a list of
  \<^typ>\<open>char\<close>, one per byte). Text is UTF-8, so a code point above U+007F occupies
  several bytes.
\<close>

definition HasPrefix :: "string \<Rightarrow> string \<Rightarrow> bool" where
  "HasPrefix s p \<longleftrightarrow> prefix p s"

definition HasSuffix :: "string \<Rightarrow> string \<Rightarrow> bool" where
  "HasSuffix s p \<longleftrightarrow> suffix p s"

text \<open>
  \<open>strings.TrimSpace\<close> removes leading and trailing white space as \<open>unicode.IsSpace\<close>
  defines it: the six ASCII characters tab, line feed, vertical tab, form feed, carriage
  return and space, and the code points U+0085, U+00A0, U+1680, U+2000 to U+200A,
  U+2028, U+2029, U+202F, U+205F and U+3000, listed here by their UTF-8 encodings.
\<close>

definition asciiSpace :: "char \<Rightarrow> bool" where
  "asciiSpace c \<longleftrightarrow>
     c = CHR 0x09 \<or> c = CHR 0x0A \<or> c = CHR 0x0B \<or> c = CHR 0x0C \<or> c = CHR 0x0D \<or> c = CHR 0x20"

definition spaceEncodings :: "string list" where
  "spaceEncodings =
     [[CHR 0xC2, CHR 0x85], [CHR 0xC2, CHR 0xA0], [CHR 0xE1, CHR 0x9A, CHR 0x80],
      [CHR 0xE2, CHR 0x80, CHR 0x80], [CHR 0xE2, CHR 0x80, CHR 0x81],
      [CHR 0xE2, CHR 0x80, CHR 0x82], [CHR 0xE2, CHR 0x80, CHR 0x83],
      [CHR 0xE2, CHR 0x80, CHR 0x84], [CHR 0xE2, CHR 0x80, CHR 0x85],
      [CHR 0xE2, CHR 0x80, CHR 0x86], [CHR 0xE2, CHR 0x80, CHR 0x87],
      [CHR 0xE2, CHR 0x80, CHR 0x88], [CHR 0xE2, CHR 0x80, CHR 0x89],
      [CHR 0xE2, CHR 0x80, CHR 0x8A], [CHR 0xE2, CHR 0x80, CHR 0xA8],
      [CHR 0xE2, CHR 0x80, CHR 0xA9], [CHR 0xE2, CHR 0x80, CHR 0xAF],
      [CHR 0xE2, CHR 0x81, CHR 0x9F], [CHR 0xE3, CHR 0x80, CHR 0x80]]"

definition leadingSpace :: "string \<Rightarrow> nat" where
  \<comment> \<open>width in bytes of the white-space character the text starts with, 0 if there is none\<close>
  "leadingSpace s =
     (case s of
        [] \<Rightarrow> 0
      | c # _ \<Rightarrow>
          if asciiSpace c then 1
          else (case find (\<lambda>e. prefix e s) spaceEncodings of
                  None \<Rightarrow> 0
                | Some e \<Rightarrow> length e))"

definition trailingSpace :: "string \<Rightarrow> nat" where
  \<comment> \<open>width in bytes of the white-space character the text ends with, 0 if there is none\<close>
  "trailingSpace s =
     (if s = [] then 0
      else if asciiSpace (last s) then 1
      else (case find (\<lambda>e. suffix e s) spaceEncodings of
              None \<Rightarrow> 0
            | Some e \<Rightarrow> length e))"

lemma leadingSpace_le: "leadingSpace s \<le> length s"
proof (cases s)
  case Nil
  then show ?thesis by (simp add: leadingSpace_def)
next
  case (Cons c cs)
  show ?thesis
  proof (cases "find (\<lambda>e. prefix e s) spaceEncodings")
    case None
    with Cons show ?thesis by (simp add: leadingSpace_def)
  next
    case (Some e)
    then have "prefix e s" by (auto simp: find_Some_iff)
    then have "length e \<le> length s" by (rule prefix_length_le)
    with Cons Some show ?thesis by (simp add: leadingSpace_def)
  qed
qed

lemma trailingSpace_le: "trailingSpace s \<le> length s"
proof (cases "s = []")
  case True
  then show ?thesis by (simp add: trailingSpace_def)
next
  case False
  show ?thesis
  proof (cases "find (\<lambda>e. suffix e s) spaceEncodings")
    case None
    with False show ?thesis by (cases s) (simp_all add: trailingSpace_def)
  next
    case (Some e)
    then have "suffix e s" by (auto simp: find_Some_iff)
    then have "length e \<le> length s" by (rule suffix_length_le)
    with False Some show ?thesis by (cases s) (simp_all add: trailingSpace_def)
  qed
qed

lemma leadingSpace_Nil: "leadingSpace [] = 0"
  by (simp add: leadingSpace_def)

lemma trailingSpace_Nil: "trailingSpace [] = 0"
  by (simp add: trailingSpace_def)

function TrimLeftSpace :: "string \<Rightarrow> string" where
  "TrimLeftSpace s =
     (if leadingSpace s = 0 then s else TrimLeftSpace (drop (leadingSpace s) s))"
  by pat_completeness auto
termination
proof (relation "measure length")
  show "wf (measure length)" by simp
next
  fix s :: string
  assume nz: "leadingSpace s \<noteq> 0"
  then have "s \<noteq> []" using leadingSpace_Nil by auto
  with nz show "(drop (leadingSpace s) s, s) \<in> measure length" by simp
qed

function TrimRightSpace :: "string \<Rightarrow> string" where
  "TrimRightSpace s =
     (if trailingSpace s = 0 then s
      else TrimRightSpace (take (length s - trailingSpace s) s))"
  by pat_completeness auto
termination
proof (relation "measure length")
  show "wf (measure length)" by simp
next
  fix s :: string
  assume nz: "trailingSpace s \<noteq> 0"
  then have "s \<noteq> []" using trailingSpace_Nil by auto
  with nz show "(take (length s - trailingSpace s) s, s) \<in> measure length" by simp
qed

declare TrimLeftSpace.simps [simp del]
declare TrimRightSpace.simps [simp del]

definition TrimSpace :: "string \<Rightarrow> string" where
  "TrimSpace s = TrimRightSpace (TrimLeftSpace s)"



text \<open>
  \<open>strings.Split\<close>, \<open>strings.Join\<close> and \<open>strings.ReplaceAll\<close>. The code calls
  \<open>Split\<close> and \<open>ReplaceAll\<close> only with separators and replacements of one character,
  so these two take characters here. \<open>Split\<close> never returns the empty list: a text
  without the separator gives the list of that one text.
\<close>

fun Split :: "string \<Rightarrow> char \<Rightarrow> string list" where
  "Split [] sep = [[]]"
| "Split (c # cs) sep =
     (if c = sep then [] # Split cs sep
      else (case Split cs sep of
              [] \<Rightarrow> [[c]]
            | w # ws \<Rightarrow> (c # w) # ws))"

fun Join :: "string list \<Rightarrow> string \<Rightarrow> string" where
  "Join [] sep = []"
| "Join [x] sep = x"
| "Join (x # y # ys) sep = x @ sep @ Join (y # ys) sep"

definition ReplaceAll :: "string \<Rightarrow> char \<Rightarrow> char \<Rightarrow> string" where
  "ReplaceAll s old new = map (\<lambda>c. if c = old then new else c) s"

section \<open>The search command (src/cmd/config_set_key_test.go, lines 143 to 381)\<close>

subsection \<open>Values as the package \<open>reflect\<close> shows them\<close>

text \<open>
  \<open>getValueRecursive\<close> walks a value through \<open>reflect\<close>. A valid \<open>reflect.Value\<close>
  is modelled by \<open>gvalue\<close>, one constructor for each kind the function tells apart:
  a string, a pointer (\<open>None\<close> is the nil pointer), a value of interface type
  (\<open>None\<close> is the nil interface), a struct with its fields in declaration order, a
  map with string keys, a map with keys of another kind, and a value of any other kind.
  The zero \<open>reflect.Value\<close> is \<open>None\<close> of type \<open>gvalue option\<close>.

  A struct field carries its name, the value of the key \<open>json\<close> in its tag (empty when
  the tag has no such key) and whether it is exported: \<open>CanInterface\<close> is false
  exactly on a value read from an unexported field, and the function never descends
  into such a value. The structs of the model have no embedded fields.

  A map is the list of its entries, with distinct keys, in the order in which
  \<open>MapRange\<close> visits them (an order Go leaves open).
\<close>

datatype gvalue =
    Str string
  | Ptr "gvalue option"
  | Iface "gvalue option"
  | StructV "sfield list"
  | MapV "(string \<times> gvalue) list"
  | MapOther
  | Basic
and sfield =
    SField (fieldName: string) (jsonTag: string) (exported: bool) (fieldValue: gvalue)

text \<open>
  An \<open>interface{}\<close> value is \<open>None\<close> for \<open>nil\<close> and \<open>Some v\<close> for a value with
  dynamic value \<open>v\<close>; a nil pointer stored in an interface is \<open>Some (Ptr None)\<close>, which
  is not \<open>nil\<close>. \<open>Value.Interface\<close> returns the content of a value of interface type
  and wraps every other value.
\<close>

fun Interface :: "gvalue \<Rightarrow> gvalue option" where
  "Interface (Iface x) = x"
| "Interface v = Some v"

subsection \<open>The types of the package \<open>mcpclient\<close>\<close>

record Status =
  Name :: string

record IssueType =
  Name :: string

record IssueFields =
  Summary :: string
  Status :: Status
  IssueType :: IssueType
  Description :: string

record Issue =
  Key :: string
  ID :: string
  Self :: string
  Fields :: IssueFields

text \<open>What \<open>reflect.ValueOf\<close> shows of these structs: field names, json tags, values.\<close>

definition reflectStatus :: "Status \<Rightarrow> gvalue" where
  "reflectStatus s = StructV [SField ''Name'' ''name'' True (Str (Status.Name s))]"

definition reflectIssueType :: "IssueType \<Rightarrow> gvalue" where
  "reflectIssueType t = StructV [SField ''Name'' ''name'' True (Str (IssueType.Name t))]"

definition reflectIssueFields :: "IssueFields \<Rightarrow> gvalue" where
  "reflectIssueFields f =
     StructV
       [SField ''Summary'' ''summary'' True (Str (Summary f)),
        SField ''Status'' ''status'' True (reflectStatus (Status f)),
        SField ''IssueType'' ''issuetype'' True (reflectIssueType (IssueType f)),
        SField ''Description'' ''description,omitempty'' True (Str (Description f))]"

definition reflectIssue :: "Issue \<Rightarrow> gvalue" where
  "reflectIssue i =
     StructV
       [SField ''Key'' ''key'' True (Str (Key i)),
        SField ''ID'' ''id'' True (Str (ID i)),
        SField ''Self'' ''self'' True (Str (Self i)),
        SField ''Fields'' ''fields'' True (reflectIssueFields (Fields i))]"

subsection \<open>\<open>getValueRecursive\<close> and \<open>getValueByPath\<close>\<close>

text \<open>
  \<open>strings.EqualFold\<close> (equality under Unicode simple case folding) is a parameter of
  the functions below, written \<open>EqualFold\<close>.
\<close>

fun deref :: "gvalue \<Rightarrow> gvalue option" where
  \<comment> \<open>the loop that dereferences pointers and interfaces; \<open>None\<close> where the
      function returns not found because it met a nil pointer or a nil interface\<close>
  "deref (Ptr None) = None"
| "deref (Ptr (Some v)) = deref v"
| "deref (Iface None) = None"
| "deref (Iface (Some v)) = deref v"
| "deref v = Some v"

definition FieldByNameFunc :: "(string \<Rightarrow> bool) \<Rightarrow> sfield list \<Rightarrow> sfield option" where
  \<comment> \<open>the field whose name satisfies \<open>match\<close>; several such fields cancel each other\<close>
  "FieldByNameFunc match fs =
     (case filter (\<lambda>fld. match (fieldName fld)) fs of
        [fld] \<Rightarrow> Some fld
      | _ \<Rightarrow> None)"

definition tagName :: "sfield \<Rightarrow> string" where
  \<comment> \<open>\<open>strings.Split(jsonTag, ",")[0]\<close>\<close>
  "tagName fld = hd (Split (jsonTag fld) CHR '','')"

definition lookupByName :: "(string \<Rightarrow> string \<Rightarrow> bool) \<Rightarrow> sfield list \<Rightarrow> string \<Rightarrow> sfield option" where
  \<comment> \<open>step 1 of the struct case: the match by field name\<close>
  "lookupByName EqualFold fs part =
     (case FieldByNameFunc (\<lambda>name. EqualFold name part) fs of
        None \<Rightarrow> None
      | Some fld \<Rightarrow> if exported fld \<and> jsonTag fld \<noteq> ''-'' then Some fld else None)"

definition lookupByTag :: "sfield list \<Rightarrow> string \<Rightarrow> sfield option" where
  \<comment> \<open>step 2 of the struct case: the first field whose tag name is the segment\<close>
  "lookupByTag fs part =
     find (\<lambda>fld. tagName fld = part \<and> jsonTag fld \<noteq> ''-'' \<and> exported fld) fs"

definition lookupField :: "(string \<Rightarrow> string \<Rightarrow> bool) \<Rightarrow> sfield list \<Rightarrow> string \<Rightarrow> sfield option" where
  "lookupField EqualFold fs part =
     (case lookupByName EqualFold fs part of
        Some fld \<Rightarrow> Some fld
      | None \<Rightarrow> lookupByTag fs part)"

definition lookupKey :: "(string \<Rightarrow> string \<Rightarrow> bool) \<Rightarrow> (string \<times> gvalue) list \<Rightarrow> string \<Rightarrow> gvalue option" where
  \<comment> \<open>the map case: \<open>MapIndex\<close>, then the first key that is equal up to case\<close>
  "lookupKey EqualFold kvs part =
     (case map_of kvs part of
        Some v \<Rightarrow> Some v
      | None \<Rightarrow> map_option snd (find (\<lambda>kv. EqualFold (fst kv) part) kvs))"

fun getValueRecursive ::
  "(string \<Rightarrow> string \<Rightarrow> bool) \<Rightarrow> gvalue option \<Rightarrow> string list \<Rightarrow> gvalue option \<times> bool" where
  "getValueRecursive EqualFold current [] = (current, True)"
| "getValueRecursive EqualFold current (part # remainingParts) =
     (case current of
        None \<Rightarrow> (None, False)
      | Some v \<Rightarrow>
          (case deref v of
             None \<Rightarrow> (None, False)
           | Some (StructV fs) \<Rightarrow>
               (case lookupField EqualFold fs part of
                  None \<Rightarrow> (None, False)
                | Some fld \<Rightarrow> getValueRecursive EqualFold (Some (fieldValue fld)) remainingParts)
           | Some (MapV kvs) \<Rightarrow>
               (case lookupKey EqualFold kvs part of
                  None \<Rightarrow> (None, False)
                | Some mapValue \<Rightarrow> getValueRecursive EqualFold (Some mapValue) remainingParts)
           | Some _ \<Rightarrow> (None, False)))"

definition getValueByPath ::
  "(string \<Rightarrow> string \<Rightarrow> bool) \<Rightarrow> gvalue option \<Rightarrow> string \<Rightarrow> gvalue option \<times> bool" where
  \<comment> \<open>\<open>data\<close> is the \<open>interface{}\<close> argument, and so is the first component of the
      result. Every value the traversal returns was read from exported fields, so
      \<open>CanInterface\<close> holds of it.\<close>
  "getValueByPath EqualFold data path =
     (case getValueRecursive EqualFold data (Split path CHR ''.'') of
        (val, found) \<Rightarrow>
          (case val of
             None \<Rightarrow> (None, False)
           | Some v \<Rightarrow> if found then (Interface v, True) else (None, False)))"

definition asciiLower :: "char \<Rightarrow> char" where
  "asciiLower c =
     (if CHR ''A'' \<le> c \<and> c \<le> CHR ''Z'' then char_of (of_char c + (32::nat)) else c)"

definition asciiEqualFold :: "string \<Rightarrow> string \<Rightarrow> bool" where
  \<comment> \<open>\<open>strings.EqualFold\<close> on ASCII text, used to run the functions on concrete inputs\<close>
  "asciiEqualFold s t \<longleftrightarrow> map asciiLower s = map asciiLower t"

subsection \<open>The steps of a resolution\<close>

text \<open>
  \<open>reaches EqualFold v parts w\<close> says that the segments \<open>parts\<close> lead from the
  value \<open>v\<close> to the value \<open>w\<close>, one step for each segment: a step goes from a
  value that dereferences to a struct to the member \<open>lookupField\<close> selects for the
  segment, or from a value that dereferences to a map to the entry \<open>lookupKey\<close>
  selects. Nothing is asked of the value \<open>w\<close> the last step arrives at.
\<close>

inductive reaches :: "(string \<Rightarrow> string \<Rightarrow> bool) \<Rightarrow> gvalue \<Rightarrow> string list \<Rightarrow> gvalue \<Rightarrow> bool"
  for EqualFold :: "string \<Rightarrow> string \<Rightarrow> bool" where
  here: "reaches EqualFold v [] v"
| field:
    "deref v = Some (StructV fs) \<Longrightarrow> lookupField EqualFold fs part = Some fld \<Longrightarrow>
     reaches EqualFold (fieldValue fld) remainingParts w \<Longrightarrow>
     reaches EqualFold v (part # remainingParts) w"
| key:
    "deref v = Some (MapV kvs) \<Longrightarrow> lookupKey EqualFold kvs part = Some mapValue \<Longrightarrow>
     reaches EqualFold mapValue remainingParts w \<Longrightarrow>
     reaches EqualFold v (part # remainingParts) w"

code_pred reaches .

subsection \<open>The projection \<open>extractFields\<close>\<close>

text \<open>
  The result is a Go map from field paths to \<open>interface{}\<close> values: a partial function,
  whose entries have no order and whose keys are distinct. An entry \<open>Some None\<close> is
  the value \<open>nil\<close> stored under its key.
\<close>

definition extractFields ::
  "(string \<Rightarrow> string \<Rightarrow> bool) \<Rightarrow> Issue \<Rightarrow> string list \<Rightarrow> (string \<rightharpoonup> gvalue option)" where
  "extractFields EqualFold issue fieldPaths =
     foldl
       (\<lambda>result fieldPath.
          (case getValueByPath EqualFold (Some (reflectIssue issue)) fieldPath of
             (value, found) \<Rightarrow>
               if found then result(fieldPath \<mapsto> value) else result(fieldPath \<mapsto> None)))
       Map.empty fieldPaths"

text \<open>
  \<open>json.MarshalIndent\<close> writes the entries of a map in the sorted order of their keys
  (strings compared byte by byte), as the documentation of \<open>encoding/json\<close> says.
\<close>

definition jsonObjectKeys :: "(string \<rightharpoonup> 'v) \<Rightarrow> string list" where
  \<comment> \<open>the keys of the JSON object written for a map, in the order of the output\<close>
  "jsonObjectKeys m = sorted_list_of_set (dom m)"

subsection \<open>The output of \<open>searchRunE\<close> in the format \<open>tsv\<close>\<close>

definition parseFields :: "string \<Rightarrow> string list" where
  \<comment> \<open>lines 143 to 158: the value of the flag \<open>--output-fields\<close>, split at commas\<close>
  "parseFields outputFieldsStr =
     (if outputFieldsStr = [] then []
      else filter (\<lambda>trimmedField. trimmedField \<noteq> [])
             (map TrimSpace (Split outputFieldsStr CHR '','')))"

definition defaultTsvFields :: "string list" where
  "defaultTsvFields = [''key'', ''fields.summary'', ''fields.status.name'', ''fields.issuetype.name'']"

definition selectTsvFields :: "string \<Rightarrow> string list" where
  \<comment> \<open>lines 209 to 226\<close>
  "selectTsvFields outputFieldsStr =
     (if outputFieldsStr \<noteq> [] then
        (if parseFields outputFieldsStr \<noteq> [] then parseFields outputFieldsStr
         else defaultTsvFields)
      else defaultTsvFields)"

definition tab :: char where
  "tab = CHR 0x09"

definition sanitize :: "string \<Rightarrow> string" where
  \<comment> \<open>the three calls of \<open>strings.ReplaceAll\<close>: tab, line feed, carriage return\<close>
  "sanitize s = ReplaceAll (ReplaceAll (ReplaceAll s tab CHR '' '') CHR 0x0A CHR '' '') CHR 0x0D CHR '' ''"

definition tsvCell ::
  "(gvalue \<Rightarrow> string) \<Rightarrow> (string \<Rightarrow> string \<Rightarrow> bool) \<Rightarrow> Issue \<Rightarrow> string \<Rightarrow> string" where
  \<comment> \<open>lines 233 to 243; \<open>Sprintf\<close> stands for \<open>fmt.Sprintf("%v", value)\<close> on a value
      that is not \<open>nil\<close>\<close>
  "tsvCell Sprintf EqualFold issue fieldPath =
     (case getValueByPath EqualFold (Some (reflectIssue issue)) fieldPath of
        (value, found) \<Rightarrow>
          (case value of
             None \<Rightarrow> []
           | Some v \<Rightarrow> if found then sanitize (Sprintf v) else []))"

definition tsvRow ::
  "(gvalue \<Rightarrow> string) \<Rightarrow> (string \<Rightarrow> string \<Rightarrow> bool) \<Rightarrow> string list \<Rightarrow> Issue \<Rightarrow> string" where
  "tsvRow Sprintf EqualFold tsvFields issue =
     Join (map (tsvCell Sprintf EqualFold issue) tsvFields) [tab]"

definition tsvOutput ::
  "(gvalue \<Rightarrow> string) \<Rightarrow> (string \<Rightarrow> string \<Rightarrow> bool) \<Rightarrow> string \<Rightarrow> Issue list \<Rightarrow> string list" where
  \<comment> \<open>lines 203 to 247: the lines written to \<open>out\<close>, one for each \<open>Fprintln\<close>\<close>
  "tsvOutput Sprintf EqualFold outputFieldsStr issues =
     (if issues = [] then [''No issues found.'']
      else Join (selectTsvFields outputFieldsStr) [tab] #
           map (tsvRow Sprintf EqualFold (selectTsvFields outputFieldsStr)) issues)"

definition cells :: "string \<Rightarrow> string list" where
  \<comment> \<open>the tab-separated cells of a line of the output\<close>
  "cells line = Split line tab"

subsection \<open>Sample data\<close>

definition sampleIssue :: Issue where
  "sampleIssue =
     \<lparr>Key = ''PROJ-1'', ID = ''10001'', Self = ''http://jira/10001'',
      Fields = \<lparr>Summary = ''First issue'', Status = \<lparr>Status.Name = ''Open''\<rparr>,
                IssueType = \<lparr>IssueType.Name = ''Bug''\<rparr>, Description = ''a''\<rparr>\<rparr>"

definition tabbedIssue :: Issue where
  \<comment> \<open>an issue whose summary holds a tab and a line feed\<close>
  "tabbedIssue =
     \<lparr>Key = ''PROJ-2'', ID = ''10002'', Self = ''http://jira/10002'',
      Fields = \<lparr>Summary = [CHR ''a'', CHR 0x09, CHR ''b'', CHR 0x0A, CHR ''c''],
                Status = \<lparr>Status.Name = ''Done''\<rparr>,
                IssueType = \<lparr>IssueType.Name = ''Task''\<rparr>, Description = []\<rparr>\<rparr>"

fun sampleSprintf :: "gvalue \<Rightarrow> string" where
  \<comment> \<open>\<open>fmt.Sprintf("%v", value)\<close> on strings and on nil pointers; a stand-in elsewhere\<close>
  "sampleSprintf (Str s) = s"
| "sampleSprintf (Ptr None) = ''<nil>''"
| "sampleSprintf v = ''?''"

definition testStruct :: "gvalue option \<Rightarrow> gvalue" where
  \<comment> \<open>the value \<open>data\<close> of \<open>TestGetValueByPath\<close> (cmd/search_test.go), its field
      \<open>Nested\<close> being the pointer given\<close>
  "testStruct nested =
     StructV
       [SField ''Key'' ''key'' True (Str ''value1''),
        SField ''Nested'' ''nested'' True (Ptr nested),
        SField ''Map'' [] True
          (MapV [(''mapKey1'', Iface (Some (Str ''mapValue1''))),
                 (''nestedMap'', Iface (Some (MapV [(''innerKey'', Str ''innerValue'')])))]),
        SField ''SkipMe'' ''-'' True (Str ''should be skipped''),
        SField ''NoTag'' [] True (Str ''noTagValue'')]"

definition testNested :: gvalue where
  "testNested = StructV [SField ''Value'' ''nestedValue'' True (Str ''nestedValue1'')]"

definition tabbedFlag :: string where
  \<comment> \<open>a value of the flag \<open>--output-fields\<close> whose second field holds a tab\<close>
  "tabbedFlag = ''key,fields'' @ [CHR 0x09] @ ''summary''"

section \<open>The response parser (internal/llm/parser.go)\<close>

subsection \<open>The pattern \<open>jsonRegex\<close>\<close>

text \<open>
  The source compiles the pattern
  \<^verbatim>\<open>(?s)\x60{3}(?:[jJ][sS][oO][nN])?\s*(\{.*\})\s*\x60{3}\<close>
  where \<open>\x60\<close> is the backquote, \<open>\s\<close> is one of tab, line feed, form feed,
  carriage return and space, and (under the flag \<open>s\<close>) the dot matches every character.
  \<open>FindStringSubmatch\<close> returns the leftmost match; among the matches that start
  there it prefers, item by item from left to right, the optional tag taken over skipped
  and each starred item as long as possible. Every literal of the pattern is an ASCII
  character, so matching bytes and matching UTF-8 characters agree.

  The functions below follow the pattern from left to right, each one matching a tail
  of the pattern at the start of its argument.
\<close>

definition fence :: string where
  "fence = ''```''"

definition reSpace :: "char \<Rightarrow> bool" where
  \<comment> \<open>the class \<open>\s\<close>\<close>
  "reSpace c \<longleftrightarrow>
     c = CHR 0x09 \<or> c = CHR 0x0A \<or> c = CHR 0x0C \<or> c = CHR 0x0D \<or> c = CHR 0x20"

definition isJsonTag :: "string \<Rightarrow> bool" where
  \<comment> \<open>the four classes \<open>[jJ][sS][oO][nN]\<close>\<close>
  "isJsonTag t \<longleftrightarrow>
     (case t of
        [a, b, c, d] \<Rightarrow>
          (a = CHR ''j'' \<or> a = CHR ''J'') \<and> (b = CHR ''s'' \<or> b = CHR ''S'') \<and>
          (c = CHR ''o'' \<or> c = CHR ''O'') \<and> (d = CHR ''n'' \<or> d = CHR ''N'')
      | _ \<Rightarrow> False)"

definition closesHere :: "string \<Rightarrow> bool" where
  \<comment> \<open>the tail \<open>\s*\x60{3}\<close>: white space, then the closing fence\<close>
  "closesHere s \<longleftrightarrow> prefix fence (dropWhile reSpace s)"

fun greedyBody :: "string \<Rightarrow> string option" where
  \<comment> \<open>the tail \<open>.*\}\s*\x60{3}\<close>, its argument being the text after the opening
      brace: the longest prefix that ends in a closing brace after which the closing
      fence follows (the star takes as much as it can and gives back one character at a
      time); the result is that prefix\<close>
  "greedyBody [] = None"
| "greedyBody (c # cs) =
     (case greedyBody cs of
        Some u \<Rightarrow> Some (c # u)
      | None \<Rightarrow> if c = CHR ''}'' \<and> closesHere cs then Some [c] else None)"

definition matchObject :: "string \<Rightarrow> string option" where
  \<comment> \<open>the tail \<open>\s*(\{.*\})\s*\x60{3}\<close>; the result is the text of group 1\<close>
  "matchObject s =
     (case dropWhile reSpace s of
        [] \<Rightarrow> None
      | c # t \<Rightarrow> if c = CHR ''{'' then map_option (\<lambda>u. c # u) (greedyBody t) else None)"

definition matchAfterFence :: "string \<Rightarrow> string option" where
  \<comment> \<open>the optional tag: first with the tag taken, then with the tag skipped\<close>
  "matchAfterFence s =
     (case (if isJsonTag (take 4 s) then matchObject (drop 4 s) else None) of
        Some g \<Rightarrow> Some g
      | None \<Rightarrow> matchObject s)"

definition matchHere :: "string \<Rightarrow> string option" where
  \<comment> \<open>the whole pattern at the start of the text\<close>
  "matchHere s = (if prefix fence s then matchAfterFence (drop 3 s) else None)"

fun FindStringSubmatch :: "string \<Rightarrow> string option" where
  \<comment> \<open>the leftmost match; \<open>Some g\<close> stands for the two-element result whose second
      element (group 1) is \<open>g\<close>, \<open>None\<close> for the empty result\<close>
  "FindStringSubmatch [] = None"
| "FindStringSubmatch (c # cs) =
     (case matchHere (c # cs) of
        Some g \<Rightarrow> Some g
      | None \<Rightarrow> FindStringSubmatch cs)"

subsection \<open>ParseLLMResponse\<close>

record LLMResponse =
  Summary :: string
  Description :: string
  ProjectNameSuggestion :: string

definition zeroLLMResponse :: LLMResponse where
  \<comment> \<open>the value \<open>LLMResponse{}\<close>\<close>
  "zeroLLMResponse = \<lparr>Summary = [], Description = [], ProjectNameSuggestion = []\<rparr>"

datatype 'e llm_error =
    ErrLLMResponseJSONFind
  | ErrLLMResponseJSONUnmarshal 'e
  | ErrLLMResponseMissingField string

definition jsonCandidate :: "string \<Rightarrow> string option" where
  \<comment> \<open>lines 41 to 63 of \<open>ParseLLMResponse\<close>: the text handed to \<open>json.Unmarshal\<close>,
      \<open>None\<close> where the function returns \<open>ErrLLMResponseJSONFind\<close>\<close>
  "jsonCandidate rawResponse =
     (case FindStringSubmatch rawResponse of
        Some g \<Rightarrow> Some (TrimSpace g)
      | None \<Rightarrow>
          (let trimmed = TrimSpace rawResponse
           in if HasPrefix trimmed ''{'' \<and> HasSuffix trimmed ''}''
              then Some (TrimSpace trimmed)
              else None))"

definition ParseLLMResponse ::
  "(string \<Rightarrow> 'e + LLMResponse) \<Rightarrow> string \<Rightarrow> LLMResponse \<times> 'e llm_error option" where
  \<comment> \<open>\<open>unmarshal\<close> stands for \<open>json.Unmarshal\<close> into a fresh \<open>LLMResponse\<close>: the
      decoder's error, or the decoded record (a key that is missing leaves its field
      empty). The second component of the result is the error, \<open>None\<close> for \<open>nil\<close>.\<close>
  "ParseLLMResponse unmarshal rawResponse =
     (case jsonCandidate rawResponse of
        None \<Rightarrow> (zeroLLMResponse, Some ErrLLMResponseJSONFind)
      | Some jsonStr \<Rightarrow>
          (case unmarshal jsonStr of
             Inl err \<Rightarrow> (zeroLLMResponse, Some (ErrLLMResponseJSONUnmarshal err))
           | Inr response \<Rightarrow>
               if Summary response = [] then
                 (response, Some (ErrLLMResponseMissingField ''summary''))
               else if ProjectNameSuggestion response = [] then
                 (response, Some (ErrLLMResponseMissingField ''project_name_suggestion''))
               else (response, None)))"

text \<open>A stand-in for the decoder, used to run \<open>ParseLLMResponse\<close> on concrete inputs.\<close>

definition sampleDecoder :: "string \<Rightarrow> unit + LLMResponse" where
  "sampleDecoder s =
     (if s = ''{}'' then Inr \<lparr>Summary = [], Description = ''d'', ProjectNameSuggestion = []\<rparr>
      else Inl ())"


subsection \<open>Inputs that open a fence and never close it\<close>

text \<open>
  These two definitions describe inputs, not code: an input opens a fence and never
  terminates it when three backquotes occur in it and do not occur again in the text
  after their first occurrence.
\<close>

fun afterFirstFence :: "string \<Rightarrow> string option" where
  \<comment> \<open>the text that follows the first occurrence of three backquotes\<close>
  "afterFirstFence [] = None"
| "afterFirstFence (c # cs) =
     (if prefix fence (c # cs) then Some (drop 3 (c # cs)) else afterFirstFence cs)"

definition unterminatedFence :: "string \<Rightarrow> bool" where
  "unterminatedFence s \<longleftrightarrow>
     (case afterFirstFence s of None \<Rightarrow> False | Some r \<Rightarrow> \<not> sublist fence r)"

subsection \<open>Sample inputs\<close>

definition fencedSample :: string where
  \<open>fencedSample =
     ''Here you go:\<newline>```JSON\<newline>  {"summary": "S", "project_name_suggestion": "P"}\<newline>```\<newline>Bye''\<close>

definition brokenFenceSample :: string where
  \<comment> \<open>the input of the test case \<open>Malformed fence - missing closing backticks\<close>\<close>
  \<open>brokenFenceSample =
     ''```json\<newline>{"summary": "Bad Fence", "project_name_suggestion": "BADFENCE"}''\<close>

definition fenceInsideSample :: string where
  \<open>fenceInsideSample =
     ''{"summary": "wrap code in ```", "project_name_suggestion": "P"}''\<close>

definition twoBlocksSample :: string where
  \<open>twoBlocksSample =
     ''```json\<newline>{"a":1}\<newline>```\<newline>and\<newline>```json\<newline>{"b":2}\<newline>```''\<close>

section \<open>Lemmas about the pattern and the trimming\<close>


lemma fence_simp: "fence = [CHR 0x60, CHR 0x60, CHR 0x60]"
  by (simp add: fence_def)

lemma reSpace_asciiSpace: "reSpace c \<Longrightarrow> asciiSpace c"
  by (auto simp: reSpace_def asciiSpace_def)

lemma not_reSpace_brace [simp]: "\<not> reSpace CHR ''{''" "\<not> reSpace CHR ''}''" "\<not> reSpace CHR 0x60"
  by (simp_all add: reSpace_def)

lemma not_asciiSpace_brace [simp]: "\<not> asciiSpace CHR ''{''" "\<not> asciiSpace CHR ''}''" "\<not> asciiSpace CHR 0x60"
  by (simp_all add: asciiSpace_def)

subsection \<open>closesHere\<close>

lemma closesHere_sublist: "closesHere s \<Longrightarrow> sublist fence s"
proof -
  assume "closesHere s"
  then obtain r where r: "dropWhile reSpace s = fence @ r"
    by (auto simp: closesHere_def prefix_def)
  have "s = takeWhile reSpace s @ dropWhile reSpace s" by simp
  with r have "s = takeWhile reSpace s @ fence @ r" by simp
  then show ?thesis unfolding sublist_def by blast
qed

lemma closesHere_spaces: "\<forall>c\<in>set ws. reSpace c \<Longrightarrow> closesHere (ws @ fence @ post)"
proof -
  assume a: "\<forall>c\<in>set ws. reSpace c"
  have "dropWhile reSpace (ws @ fence @ post) = dropWhile reSpace (fence @ post)"
    using a by (simp add: dropWhile_append)
  also have "\<dots> = fence @ post" by (simp add: fence_simp)
  finally show ?thesis by (simp add: closesHere_def)
qed

subsection \<open>greedyBody\<close>

lemma greedyBody_Some_split:
  "greedyBody s = Some u \<Longrightarrow> \<exists>a b. u = a @ [CHR ''}''] \<and> s = u @ b \<and> closesHere b"
proof (induction s arbitrary: u)
  case Nil
  then show ?case by simp
next
  case (Cons c cs)
  show ?case
  proof (cases "greedyBody cs")
    case None
    with Cons.prems have "c = CHR ''}''" "closesHere cs" "u = [c]"
      by (auto split: if_splits)
    then show ?thesis by auto
  next
    case (Some v)
    with Cons.prems have u: "u = c # v" by simp
    from Cons.IH [OF Some] obtain a b where "v = a @ [CHR ''}'']" "cs = v @ b" "closesHere b"
      by blast
    with u show ?thesis by auto
  qed
qed

lemma greedyBody_sublist: "greedyBody s = Some u \<Longrightarrow> sublist fence s"
proof -
  assume "greedyBody s = Some u"
  then obtain a b where "s = u @ b" "closesHere b"
    using greedyBody_Some_split by blast
  then show ?thesis
    using closesHere_sublist sublist_appendI
    by (metis append_Nil2 sublist_append)
qed

lemma greedyBody_skip:
  "greedyBody r = None \<Longrightarrow> closesHere r \<Longrightarrow> greedyBody (mid @ CHR ''}'' # r) = Some (mid @ [CHR ''}''])"
  by (induction mid) simp_all

lemma greedyBody_None: "\<not> sublist fence s \<Longrightarrow> greedyBody s = None"
  using greedyBody_sublist by (cases "greedyBody s") auto


lemma append_eq_tail:
  assumes eq: "xs @ post = u @ b" and x: "x \<in> set u" "x \<notin> set xs"
  shows "\<exists>t. post = t @ b"
proof -
  from eq obtain t where "xs = u @ t \<and> t @ post = b \<or> xs @ t = u \<and> post = t @ b"
    unfolding append_eq_append_conv2 by blast
  then show ?thesis
  proof
    assume "xs = u @ t \<and> t @ post = b"
    with x show ?thesis by auto
  next
    assume "xs @ t = u \<and> post = t @ b"
    then show ?thesis by blast
  qed
qed

lemma greedyBody_after_close:
  assumes ws: "\<forall>c\<in>set ws. reSpace c" and post: "\<not> sublist fence post"
  shows "greedyBody (ws @ fence @ post) = None"
proof (cases "greedyBody (ws @ fence @ post)")
  case None
  then show ?thesis .
next
  case (Some u)
  then obtain a b where u: "u = a @ [CHR ''}'']" and s: "ws @ fence @ post = u @ b"
    and cl: "closesHere b"
    using greedyBody_Some_split by blast
  have "CHR ''}'' \<notin> set ws"
  proof
    assume "CHR ''}'' \<in> set ws"
    with ws have "reSpace CHR ''}''" by blast
    then show False by simp
  qed
  moreover have "CHR ''}'' \<notin> set fence" by (simp add: fence_simp)
  ultimately have nb: "CHR ''}'' \<notin> set (ws @ fence)" by simp
  from s have eq: "(ws @ fence) @ post = u @ b" by simp
  from u have inu: "CHR ''}'' \<in> set u" by simp
  from append_eq_tail [OF eq inu nb] obtain t where "post = t @ b" ..
  moreover from cl have "sublist fence b" by (rule closesHere_sublist)
  ultimately have "sublist fence post" by (simp add: sublist_append)
  with post show ?thesis by simp
qed

subsection \<open>The match at a given start\<close>

lemma matchObject_body:
  assumes ws1: "\<forall>c\<in>set ws1. reSpace c" and ws2: "\<forall>c\<in>set ws2. reSpace c"
    and post: "\<not> sublist fence post"
  shows "matchObject (ws1 @ (CHR ''{'' # mid @ [CHR ''}'']) @ ws2 @ fence @ post) =
           Some (CHR ''{'' # mid @ [CHR ''}''])"
proof -
  let ?r = "ws2 @ fence @ post"
  have d: "dropWhile reSpace (ws1 @ (CHR ''{'' # mid @ [CHR ''}'']) @ ?r) =
             CHR ''{'' # mid @ CHR ''}'' # ?r"
    using ws1 by (simp add: dropWhile_append)
  have g: "greedyBody (mid @ CHR ''}'' # ?r) = Some (mid @ [CHR ''}''])"
    using greedyBody_skip [OF greedyBody_after_close [OF ws2 post] closesHere_spaces [OF ws2]] .
  show ?thesis
    unfolding matchObject_def d by (simp add: g)
qed

lemma isJsonTag_length: "isJsonTag t \<Longrightarrow> length t = 4"
  unfolding isJsonTag_def by (simp split: list.splits)

lemma isJsonTag_hd: "isJsonTag t \<Longrightarrow> hd t \<in> {CHR ''j'', CHR ''J''}"
  unfolding isJsonTag_def by (simp split: list.splits)

lemma not_isJsonTag_take:
  assumes "s \<noteq> []" "hd s \<notin> {CHR ''j'', CHR ''J''}"
  shows "\<not> isJsonTag (take 4 s)"
proof
  assume "isJsonTag (take 4 s)"
  then have "hd (take 4 s) \<in> {CHR ''j'', CHR ''J''}" by (rule isJsonTag_hd)
  with assms show False by (cases s) auto
qed

lemma matchAfterFence_body:
  assumes tag: "tag = [] \<or> isJsonTag tag"
    and ws1: "\<forall>c\<in>set ws1. reSpace c" and ws2: "\<forall>c\<in>set ws2. reSpace c"
    and post: "\<not> sublist fence post"
  shows "matchAfterFence (tag @ ws1 @ (CHR ''{'' # mid @ [CHR ''}'']) @ ws2 @ fence @ post) =
           Some (CHR ''{'' # mid @ [CHR ''}''])"
proof -
  let ?rest = "ws1 @ (CHR ''{'' # mid @ [CHR ''}'']) @ ws2 @ fence @ post"
  have m: "matchObject ?rest = Some (CHR ''{'' # mid @ [CHR ''}''])"
    using matchObject_body [OF ws1 ws2 post] .
  from tag show ?thesis
  proof
    assume t: "tag = []"
    have "?rest \<noteq> []" by simp
    moreover have "hd ?rest \<notin> {CHR ''j'', CHR ''J''}"
    proof (cases ws1)
      case Nil
      then show ?thesis by simp
    next
      case (Cons c cs)
      with ws1 have "reSpace c" by simp
      with Cons show ?thesis by (auto simp: reSpace_def)
    qed
    ultimately have "\<not> isJsonTag (take 4 ?rest)" by (rule not_isJsonTag_take)
    with t m show ?thesis by (simp add: matchAfterFence_def)
  next
    assume t: "isJsonTag tag"
    then have "length tag = 4" by (rule isJsonTag_length)
    then have "take 4 (tag @ ?rest) = tag" "drop 4 (tag @ ?rest) = ?rest" by simp_all
    with t m show ?thesis by (simp add: matchAfterFence_def)
  qed
qed

lemma matchHere_body:
  assumes tag: "tag = [] \<or> isJsonTag tag"
    and ws1: "\<forall>c\<in>set ws1. reSpace c" and ws2: "\<forall>c\<in>set ws2. reSpace c"
    and post: "\<not> sublist fence post"
  shows "matchHere (fence @ tag @ ws1 @ (CHR ''{'' # mid @ [CHR ''}'']) @ ws2 @ fence @ post) =
           Some (CHR ''{'' # mid @ [CHR ''}''])"
proof -
  have "drop 3 (fence @ tag @ ws1 @ (CHR ''{'' # mid @ [CHR ''}'']) @ ws2 @ fence @ post) =
          tag @ ws1 @ (CHR ''{'' # mid @ [CHR ''}'']) @ ws2 @ fence @ post"
    by (simp add: fence_simp)
  then show ?thesis
    unfolding matchHere_def
    using matchAfterFence_body [OF tag ws1 ws2 post] by simp
qed


subsection \<open>TrimSpace on text that starts and ends with a brace\<close>

lemma leadingSpace_ascii: "asciiSpace c \<Longrightarrow> leadingSpace (c # s) = 1"
  by (simp add: leadingSpace_def)

lemma leadingSpace_brace: "leadingSpace (CHR ''{'' # s) = 0"
  by (simp add: leadingSpace_def spaceEncodings_def)

lemma trailingSpace_ascii: "asciiSpace c \<Longrightarrow> trailingSpace (s @ [c]) = 1"
  by (simp add: trailingSpace_def)

lemma trailingSpace_brace: "trailingSpace (s @ [CHR ''}'']) = 0"
  by (simp add: trailingSpace_def spaceEncodings_def suffix_def)

lemma TrimLeftSpace_spaces:
  "\<forall>c\<in>set ws. asciiSpace c \<Longrightarrow> TrimLeftSpace (ws @ s) = TrimLeftSpace s"
proof (induction ws)
  case Nil
  then show ?case by simp
next
  case (Cons c ws)
  then have c: "asciiSpace c" by simp
  have "TrimLeftSpace ((c # ws) @ s) = TrimLeftSpace (ws @ s)"
    by (subst TrimLeftSpace.simps) (simp add: leadingSpace_ascii [OF c])
  with Cons show ?case by simp
qed

lemma TrimLeftSpace_brace: "TrimLeftSpace (CHR ''{'' # s) = CHR ''{'' # s"
  by (subst TrimLeftSpace.simps) (simp add: leadingSpace_brace)

lemma TrimRightSpace_spaces:
  "\<forall>c\<in>set ws. asciiSpace c \<Longrightarrow> TrimRightSpace (s @ ws) = TrimRightSpace s"
proof (induction ws rule: rev_induct)
  case Nil
  then show ?case by simp
next
  case (snoc c ws)
  then have c: "asciiSpace c" by simp
  have "trailingSpace ((s @ ws) @ [c]) = 1" using c by (rule trailingSpace_ascii)
  then have "TrimRightSpace ((s @ ws) @ [c]) = TrimRightSpace (s @ ws)"
    by (subst TrimRightSpace.simps) simp
  with snoc show ?case by simp
qed

lemma TrimRightSpace_brace: "TrimRightSpace (s @ [CHR ''}'']) = s @ [CHR ''}'']"
  by (subst TrimRightSpace.simps) (simp add: trailingSpace_brace)

lemma TrimSpace_object:
  assumes "\<forall>c\<in>set ws1. reSpace c" "\<forall>c\<in>set ws2. reSpace c"
  shows "TrimSpace (ws1 @ (CHR ''{'' # mid @ [CHR ''}'']) @ ws2) = CHR ''{'' # mid @ [CHR ''}'']"
proof -
  from assms have a1: "\<forall>c\<in>set ws1. asciiSpace c" and a2: "\<forall>c\<in>set ws2. asciiSpace c"
    using reSpace_asciiSpace by blast+
  have "TrimLeftSpace (ws1 @ (CHR ''{'' # mid @ [CHR ''}'']) @ ws2) =
          (CHR ''{'' # mid @ [CHR ''}'']) @ ws2"
    using TrimLeftSpace_spaces [OF a1] by (simp add: TrimLeftSpace_brace)
  moreover have "TrimRightSpace ((CHR ''{'' # mid @ [CHR ''}'']) @ ws2) =
          CHR ''{'' # mid @ [CHR ''}'']"
    using TrimRightSpace_spaces [OF a2, of "CHR ''{'' # mid @ [CHR ''}'']"]
      TrimRightSpace_brace [of "CHR ''{'' # mid"] by simp
  ultimately show ?thesis by (simp add: TrimSpace_def)
qed

lemma TrimSpace_object_id: "TrimSpace (CHR ''{'' # mid @ [CHR ''}'']) = CHR ''{'' # mid @ [CHR ''}'']"
  using TrimSpace_object [of "[]" "[]" mid] by simp

subsection \<open>The leftmost match\<close>

lemma matchAfterFence_backquote: "matchAfterFence (CHR 0x60 # r) = None"
proof -
  have "\<not> isJsonTag (take 4 (CHR 0x60 # r))"
    by (rule not_isJsonTag_take) simp_all
  moreover have "matchObject (CHR 0x60 # r) = None"
    by (simp add: matchObject_def)
  ultimately show ?thesis by (simp add: matchAfterFence_def)
qed

lemma matchHere_before_fence:
  assumes "\<not> sublist fence (c # pre)"
  shows "matchHere (c # pre @ fence @ r) = None"
proof (cases pre)
  case Nil
  then show ?thesis
    using matchAfterFence_backquote [of r]
    by (auto simp: matchHere_def fence_simp)
next
  case (Cons d pre')
  show ?thesis
  proof (cases pre')
    case Nil
    with Cons show ?thesis
      using matchAfterFence_backquote [of "CHR 0x60 # r"]
      by (auto simp: matchHere_def fence_simp)
  next
    case (Cons e pre'')
    have "\<not> prefix fence (c # pre)"
      using assms prefix_imp_sublist by blast
    with \<open>pre = d # pre'\<close> Cons have "\<not> prefix fence (c # pre @ fence @ r)"
      by (simp add: fence_simp)
    then show ?thesis by (simp add: matchHere_def)
  qed
qed

lemma FindStringSubmatch_skip:
  "\<not> sublist fence pre \<Longrightarrow> FindStringSubmatch (pre @ fence @ r) = FindStringSubmatch (fence @ r)"
proof (induction pre)
  case Nil
  then show ?case by simp
next
  case (Cons c pre)
  then have "\<not> sublist fence pre" by (simp add: sublist_Cons_right)
  with Cons.IH have ih: "FindStringSubmatch (pre @ fence @ r) = FindStringSubmatch (fence @ r)" .
  have "matchHere (c # pre @ fence @ r) = None"
    using Cons.prems by (rule matchHere_before_fence)
  with ih show ?case by simp
qed

lemma FindStringSubmatch_here: "matchHere s = Some g \<Longrightarrow> FindStringSubmatch s = Some g"
  by (cases s) (simp_all add: matchHere_def fence_simp)

lemma FindStringSubmatch_fenced:
  assumes pre: "\<not> sublist fence pre" and post: "\<not> sublist fence post"
    and tag: "tag = [] \<or> isJsonTag tag"
    and ws1: "\<forall>c\<in>set ws1. reSpace c" and ws2: "\<forall>c\<in>set ws2. reSpace c"
  shows "FindStringSubmatch
           (pre @ fence @ tag @ ws1 @ (CHR ''{'' # mid @ [CHR ''}'']) @ ws2 @ fence @ post) =
         Some (CHR ''{'' # mid @ [CHR ''}''])"
  using FindStringSubmatch_skip [OF pre]
    FindStringSubmatch_here [OF matchHere_body [OF tag ws1 ws2 post]]
  by simp


subsection \<open>Every match needs two fences\<close>

lemma greedyBody_fence: "greedyBody s = Some u \<Longrightarrow> sublist fence s"
  using greedyBody_sublist by blast

lemma matchObject_sublist: "matchObject s = Some g \<Longrightarrow> sublist fence s"
proof -
  assume a: "matchObject s = Some g"
  then obtain c t where d: "dropWhile reSpace s = c # t" and g: "greedyBody t \<noteq> None"
    by (auto simp: matchObject_def split: list.splits if_splits)
  from g have "sublist fence t" using greedyBody_sublist by blast
  then have "sublist fence (takeWhile reSpace s @ c # t)"
    by (simp add: sublist_append sublist_Cons_right)
  with d show ?thesis by (metis takeWhile_dropWhile_id)
qed

lemma matchAfterFence_sublist: "matchAfterFence s = Some g \<Longrightarrow> sublist fence s"
proof -
  assume a: "matchAfterFence s = Some g"
  then consider "matchObject (drop 4 s) = Some g" | "matchObject s = Some g"
    by (auto simp: matchAfterFence_def split: option.splits if_splits)
  then show ?thesis
  proof cases
    case 1
    then have "sublist fence (drop 4 s)" by (rule matchObject_sublist)
    moreover have "sublist (drop 4 s) s" by (rule sublist_drop)
    ultimately show ?thesis by (rule sublist_order.order_trans)
  next
    case 2
    then show ?thesis by (rule matchObject_sublist)
  qed
qed

lemma FindStringSubmatch_two_fences:
  "FindStringSubmatch s = Some g \<Longrightarrow> \<exists>a t. s = a @ fence @ t \<and> sublist fence t"
proof (induction s)
  case Nil
  then show ?case by simp
next
  case (Cons c cs)
  show ?case
  proof (cases "matchHere (c # cs)")
    case None
    with Cons.prems have "FindStringSubmatch cs = Some g" by simp
    with Cons.IH obtain a t where "cs = a @ fence @ t" "sublist fence t" by blast
    then have "c # cs = (c # a) @ fence @ t \<and> sublist fence t" by simp
    then show ?thesis by blast
  next
    case (Some h)
    then have p: "prefix fence (c # cs)" and m: "matchAfterFence (drop 3 (c # cs)) = Some h"
      by (auto simp: matchHere_def split: if_splits)
    from p obtain t where t: "c # cs = fence @ t" by (auto simp: prefix_def)
    then have "drop 3 (c # cs) = t" by (simp add: fence_simp)
    with m have "sublist fence t" using matchAfterFence_sublist by simp
    with t have "c # cs = [] @ fence @ t \<and> sublist fence t" by simp
    then show ?thesis by blast
  qed
qed

lemma afterFirstFence_second:
  "s = a @ fence @ t \<Longrightarrow> sublist fence t \<Longrightarrow> afterFirstFence s = Some r \<Longrightarrow> sublist fence r"
proof (induction s arbitrary: a)
  case Nil
  then show ?case by simp
next
  case (Cons c cs)
  show ?case
  proof (cases "prefix fence (c # cs)")
    case True
    with Cons.prems(3) have r: "r = drop 3 (c # cs)" by simp
    have "length (a @ fence) \<ge> 3" by (simp add: fence_simp)
    then have "drop 3 ((a @ fence) @ t) = drop 3 (a @ fence) @ t" by simp
    with Cons.prems(1) r have "r = drop 3 (a @ fence) @ t" by simp
    with Cons.prems(2) show ?thesis by (simp add: sublist_append)
  next
    case False
    with Cons.prems(3) have r: "afterFirstFence cs = Some r" by simp
    from False Cons.prems(1) have "a \<noteq> []" by auto
    then obtain a' where "a = c # a'" using Cons.prems(1) by (cases a) auto
    with Cons.prems(1) have "cs = a' @ fence @ t" by simp
    from Cons.IH [OF this Cons.prems(2) r] show ?thesis .
  qed
qed

lemma unterminatedFence_no_match: "unterminatedFence s \<Longrightarrow> FindStringSubmatch s = None"
proof (rule ccontr)
  assume u: "unterminatedFence s" and "FindStringSubmatch s \<noteq> None"
  then obtain g where "FindStringSubmatch s = Some g" by auto
  then obtain a t where s: "s = a @ fence @ t" and t: "sublist fence t"
    using FindStringSubmatch_two_fences by blast
  from u obtain r where r: "afterFirstFence s = Some r" and n: "\<not> sublist fence r"
    by (auto simp: unterminatedFence_def split: option.splits)
  from afterFirstFence_second [OF s t r] n show False by simp
qed



section \<open>Lemmas about the search command\<close>

subsection \<open>\<open>Split\<close> and \<open>Join\<close>\<close>

lemma Split_not_Nil: "Split s sep \<noteq> []"
  by (induction s) (auto split: list.splits)

lemma Split_no_sep: "sep \<notin> set s \<Longrightarrow> Split s sep = [s]"
  by (induction s) auto

lemma Split_append_sep: "sep \<notin> set a \<Longrightarrow> Split (a @ sep # r) sep = a # Split r sep"
proof (induction a)
  case Nil
  then show ?case by simp
next
  case (Cons c a)
  then show ?case by auto
qed

lemma Split_Join:
  "vs \<noteq> [] \<Longrightarrow> \<forall>v\<in>set vs. sep \<notin> set v \<Longrightarrow> Split (Join vs [sep]) sep = vs"
proof (induction vs "[sep]" rule: Join.induct)
  case 1
  then show ?case by simp
next
  case (2 x)
  then show ?case by (simp add: Split_no_sep)
next
  case (3 x y ys)
  then have "Split (Join (y # ys) [sep]) sep = y # ys" by simp
  moreover from 3 have "sep \<notin> set x" by simp
  ultimately show ?case by (simp add: Split_append_sep)
qed

subsection \<open>The cells of a row\<close>

lemma sanitize_no_tab: "tab \<notin> set (sanitize s)"
  by (auto simp: sanitize_def ReplaceAll_def tab_def)

lemma tsvCell_no_tab: "tab \<notin> set (tsvCell Sprintf EqualFold issue fieldPath)"
  by (auto simp: tsvCell_def sanitize_no_tab split: prod.splits option.splits)

lemma cells_tsvRow:
  assumes "tsvFields \<noteq> []"
  shows "cells (tsvRow Sprintf EqualFold tsvFields issue) =
           map (tsvCell Sprintf EqualFold issue) tsvFields"
proof -
  have "map (tsvCell Sprintf EqualFold issue) tsvFields \<noteq> []" using assms by simp
  moreover have "\<forall>v\<in>set (map (tsvCell Sprintf EqualFold issue) tsvFields). tab \<notin> set v"
    by (auto simp: tsvCell_no_tab)
  ultimately show ?thesis unfolding cells_def tsvRow_def by (rule Split_Join)
qed

lemma selectTsvFields_not_Nil: "selectTsvFields outputFieldsStr \<noteq> []"
  by (simp add: selectTsvFields_def defaultTsvFields_def)

subsection \<open>The traversal\<close>

lemma reaches_getValueRecursive:
  "reaches EqualFold v ps w \<Longrightarrow>
   getValueRecursive EqualFold (Some v) (ps @ qs) = getValueRecursive EqualFold (Some w) qs"
  by (induction rule: reaches.induct) simp_all

lemma getValueRecursive_reaches:
  "getValueRecursive EqualFold (Some v) ps = (Some w, True) \<Longrightarrow> reaches EqualFold v ps w"
proof (induction ps arbitrary: v)
  case Nil
  then show ?case by (simp add: reaches.here)
next
  case (Cons p ps)
  from Cons.prems show ?case
    by (auto split: option.splits gvalue.splits intro: reaches.field reaches.key Cons.IH)
qed

lemma lookupByName_not_excluded:
  "lookupByName EqualFold fs part = Some fld \<Longrightarrow> fld \<in> set fs \<and> jsonTag fld \<noteq> ''-''"
proof -
  assume a: "lookupByName EqualFold fs part = Some fld"
  then have f: "FieldByNameFunc (\<lambda>name. EqualFold name part) fs = Some fld" and t: "jsonTag fld \<noteq> ''-''"
    by (auto simp: lookupByName_def split: option.splits if_splits)
  from f have "filter (\<lambda>fld. EqualFold (fieldName fld) part) fs = [fld]"
    by (auto simp: FieldByNameFunc_def split: list.splits)
  then have "fld \<in> set (filter (\<lambda>fld. EqualFold (fieldName fld) part) fs)" by simp
  then have "fld \<in> set fs" by simp
  with t show ?thesis by simp
qed

lemma lookupByTag_not_excluded:
  "lookupByTag fs part = Some fld \<Longrightarrow> fld \<in> set fs \<and> jsonTag fld \<noteq> ''-''"
  by (auto simp: lookupByTag_def find_Some_iff)

lemma lookupField_not_excluded:
  "lookupField EqualFold fs part = Some fld \<Longrightarrow> fld \<in> set fs \<and> jsonTag fld \<noteq> ''-''"
  using lookupByName_not_excluded lookupByTag_not_excluded
  by (fastforce simp: lookupField_def split: option.splits)

lemma lookupByName_match:
  "lookupByName EqualFold fs part = Some fld \<Longrightarrow> EqualFold (fieldName fld) part"
proof -
  assume a: "lookupByName EqualFold fs part = Some fld"
  then have "filter (\<lambda>fld. EqualFold (fieldName fld) part) fs = [fld]"
    by (auto simp: lookupByName_def FieldByNameFunc_def split: option.splits if_splits list.splits)
  then have "fld \<in> set (filter (\<lambda>fld. EqualFold (fieldName fld) part) fs)" by simp
  then show ?thesis by simp
qed

lemma lookupByTag_match: "lookupByTag fs part = Some fld \<Longrightarrow> tagName fld = part"
  by (auto simp: lookupByTag_def find_Some_iff)

lemma lookupField_match:
  "lookupField EqualFold fs part = Some fld \<Longrightarrow> EqualFold (fieldName fld) part \<or> tagName fld = part"
  using lookupByName_match lookupByTag_match
  by (fastforce simp: lookupField_def split: option.splits)

subsection \<open>The projection\<close>

lemma foldl_upd:
  "foldl (\<lambda>m k. m(k \<mapsto> g k)) m0 ks = (\<lambda>k. if k \<in> set ks then Some (g k) else m0 k)"
proof (induction ks arbitrary: m0)
  case Nil
  then show ?case by simp
next
  case (Cons a ks)
  show ?case unfolding foldl_Cons Cons.IH by (rule ext) simp
qed

lemma extractFields_entries:
  "extractFields EqualFold issue fieldPaths =
     (\<lambda>p. if p \<in> set fieldPaths then
             Some (case getValueByPath EqualFold (Some (reflectIssue issue)) p of
                     (value, found) \<Rightarrow> if found then value else None)
           else None)"
proof -
  have "extractFields EqualFold issue fieldPaths =
      foldl (\<lambda>m k. m(k \<mapsto> (case getValueByPath EqualFold (Some (reflectIssue issue)) k of
                     (value, found) \<Rightarrow> if found then value else None))) Map.empty fieldPaths"
    unfolding extractFields_def
    by (rule arg_cong [where f = "\<lambda>f. foldl f Map.empty fieldPaths"])
       (auto simp: fun_eq_iff split: prod.splits)
  then show ?thesis by (simp add: foldl_upd)
qed

lemma dom_extractFields: "dom (extractFields EqualFold issue fieldPaths) = set fieldPaths"
  by (auto simp: extractFields_entries dom_def)

section \<open>Properties of the response parser\<close>

lemma jsonCandidate_braces: "jsonCandidate ''{}'' = Some ''{}''"
  by code_simp

lemma jsonCandidate_word: "jsonCandidate ''x'' = None"
  by code_simp

lemma jsonCandidate_bad: "jsonCandidate ''{x}'' = Some ''{x}''"
  by code_simp

text \<open>
  Claim C6. After a successful decode the summary is checked before the project name
  suggestion: whenever the decoded record has an empty summary (the key was empty or
  missing), the error names \<open>summary\<close>, whatever the project name suggestion is.
\<close>

theorem C6_summary_checked_first:
  assumes "jsonCandidate rawResponse = Some jsonStr"
    and "unmarshal jsonStr = Inr response"
    and "Summary response = []"
  shows "ParseLLMResponse unmarshal rawResponse =
           (response, Some (ErrLLMResponseMissingField ''summary''))"
  using assms by (simp add: ParseLLMResponse_def)

theorem C6_summary_checked_first_witness:
  "ParseLLMResponse sampleDecoder ''{}'' =
   (\<lparr>Summary = [], Description = ''d'', ProjectNameSuggestion = []\<rparr>,
    Some (ErrLLMResponseMissingField ''summary''))"
  by (rule C6_summary_checked_first [OF jsonCandidate_braces]) (simp_all add: sampleDecoder_def)

text \<open>
  Claim C10. When the error is a missing required field, the record returned with it is
  the record the decoder produced (fields that were present keep their values); when the
  error is the JSON-find error or the decoder's error, the record returned is the zero
  record.
\<close>

theorem C10_record_returned_with_error:
  fixes unmarshal :: "string \<Rightarrow> 'e + LLMResponse"
  shows
  "(snd (ParseLLMResponse unmarshal rawResponse) = Some (ErrLLMResponseMissingField f) \<longrightarrow>
      (\<exists>jsonStr. jsonCandidate rawResponse = Some jsonStr \<and>
         unmarshal jsonStr = Inr (fst (ParseLLMResponse unmarshal rawResponse)))) \<and>
   (snd (ParseLLMResponse unmarshal rawResponse) = Some ErrLLMResponseJSONFind \<longrightarrow>
      fst (ParseLLMResponse unmarshal rawResponse) = zeroLLMResponse) \<and>
   (snd (ParseLLMResponse unmarshal rawResponse) = Some (ErrLLMResponseJSONUnmarshal err) \<longrightarrow>
      fst (ParseLLMResponse unmarshal rawResponse) = zeroLLMResponse)"
  by (auto simp: ParseLLMResponse_def split: option.splits sum.splits if_splits)

theorem C10_record_returned_with_error_witness:
  "snd (ParseLLMResponse sampleDecoder ''{}'') = Some (ErrLLMResponseMissingField ''summary'') \<and>
   sampleDecoder ''{}'' = Inr (fst (ParseLLMResponse sampleDecoder ''{}'')) \<and>
   Description (fst (ParseLLMResponse sampleDecoder ''{}'')) = ''d'' \<and>
   snd (ParseLLMResponse sampleDecoder ''x'') = Some ErrLLMResponseJSONFind \<and>
   fst (ParseLLMResponse sampleDecoder ''x'') = zeroLLMResponse \<and>
   snd (ParseLLMResponse sampleDecoder ''{x}'') = Some (ErrLLMResponseJSONUnmarshal ()) \<and>
   fst (ParseLLMResponse sampleDecoder ''{x}'') = zeroLLMResponse"
proof -
  have a: "snd (ParseLLMResponse sampleDecoder ''{}'') =
             Some (ErrLLMResponseMissingField ''summary'')"
    by (simp add: ParseLLMResponse_def jsonCandidate_braces sampleDecoder_def)
  have b: "snd (ParseLLMResponse sampleDecoder ''x'') = Some ErrLLMResponseJSONFind"
    by (simp add: ParseLLMResponse_def jsonCandidate_word)
  have c: "snd (ParseLLMResponse sampleDecoder ''{x}'') = Some (ErrLLMResponseJSONUnmarshal ())"
    by (simp add: ParseLLMResponse_def jsonCandidate_bad sampleDecoder_def)
  from a C10_record_returned_with_error [of sampleDecoder "''{}''" "''summary''" "()"]
  have a': "sampleDecoder ''{}'' = Inr (fst (ParseLLMResponse sampleDecoder ''{}''))"
    by (auto simp: jsonCandidate_braces)
  have "Description \<lparr>Summary = [], Description = ''d'', ProjectNameSuggestion = []\<rparr> = ''d''"
    by simp
  with a' have a'': "Description (fst (ParseLLMResponse sampleDecoder ''{}'')) = ''d''"
    by (simp add: sampleDecoder_def)
  from b C10_record_returned_with_error [of sampleDecoder "''x''" "''summary''" "()"]
  have b': "fst (ParseLLMResponse sampleDecoder ''x'') = zeroLLMResponse" by blast
  from c C10_record_returned_with_error [of sampleDecoder "''{x}''" "''summary''" "()"]
  have c': "fst (ParseLLMResponse sampleDecoder ''{x}'') = zeroLLMResponse" by blast
  from a a' a'' b b' c c' show ?thesis by blast
qed

text \<open>
  Claim C5. Let the input hold exactly one well-formed fenced JSON block: some text
  without three backquotes in a row, the opening fence, no tag or the tag \<open>json\<close> in
  any mix of cases, white space, an object that starts with an opening brace and ends
  with a closing brace, white space, the closing fence, and text without three
  backquotes in a row. Then the candidate handed to the decoder is the interior of the
  fence (the text between the tag and the closing fence) after trimming, and that is
  the object itself, byte for byte.
\<close>

theorem C5_single_fenced_block:
  assumes "\<not> sublist fence pre" and "\<not> sublist fence post"
    and "tag = [] \<or> isJsonTag tag"
    and "\<forall>c\<in>set ws1. reSpace c" and "\<forall>c\<in>set ws2. reSpace c"
    and "interior = ws1 @ (CHR ''{'' # mid @ [CHR ''}'']) @ ws2"
  shows "jsonCandidate (pre @ fence @ tag @ interior @ fence @ post) = Some (TrimSpace interior)
    \<and> TrimSpace interior = CHR ''{'' # mid @ [CHR ''}'']"
proof -
  have "FindStringSubmatch (pre @ fence @ tag @ interior @ fence @ post) =
          Some (CHR ''{'' # mid @ [CHR ''}''])"
    using FindStringSubmatch_fenced [OF assms(1,2,3,4,5), of mid] assms(6) by simp
  then have "jsonCandidate (pre @ fence @ tag @ interior @ fence @ post) =
          Some (TrimSpace (CHR ''{'' # mid @ [CHR ''}'']))"
    by (simp add: jsonCandidate_def)
  moreover have "TrimSpace interior = CHR ''{'' # mid @ [CHR ''}'']"
    unfolding assms(6) using assms(4,5) by (rule TrimSpace_object)
  ultimately show ?thesis by (simp add: TrimSpace_object_id)
qed

theorem C5_single_fenced_block_witness:
  \<open>jsonCandidate fencedSample = Some ''{"summary": "S", "project_name_suggestion": "P"}''\<close>
proof -
  have 1: "\<not> sublist fence ''Here you go:\<newline>''" by code_simp
  have 2: "\<not> sublist fence ''\<newline>Bye''" by code_simp
  have 3: "''JSON'' = [] \<or> isJsonTag ''JSON''" by code_simp
  have 4: "\<forall>c\<in>set ''\<newline>  ''. reSpace c" by code_simp
  have 5: "\<forall>c\<in>set ''\<newline>''. reSpace c" by code_simp
  have 6: \<open>''\<newline>  {"summary": "S", "project_name_suggestion": "P"}\<newline>'' =
      ''\<newline>  '' @ (CHR ''{'' # ''"summary": "S", "project_name_suggestion": "P"'' @ [CHR ''}'']) @ ''\<newline>''\<close>
    by simp
  have 7: \<open>fencedSample = ''Here you go:\<newline>'' @ fence @ ''JSON'' @
      ''\<newline>  {"summary": "S", "project_name_suggestion": "P"}\<newline>'' @ fence @ ''\<newline>Bye''\<close>
    by (simp add: fencedSample_def fence_def)
  from C5_single_fenced_block [OF 1 2 3 4 5 6] show ?thesis
    unfolding 7 by simp
qed

text \<open>
  Claim C3, as the code has it. An input that opens a fence and never terminates it is
  not matched by the pattern, and the function then falls back to the whole input: it
  returns the JSON-find error (with the zero record) exactly when the trimmed input does
  not both start with an opening brace and end with a closing brace; otherwise the
  trimmed input is the candidate. In particular the error is returned whenever the
  trimmed input starts with the fence.
\<close>

theorem C3_unterminated_fence_falls_back:
  assumes "unterminatedFence rawResponse"
  shows "FindStringSubmatch rawResponse = None
    \<and> jsonCandidate rawResponse =
        (if HasPrefix (TrimSpace rawResponse) ''{'' \<and> HasSuffix (TrimSpace rawResponse) ''}''
         then Some (TrimSpace (TrimSpace rawResponse)) else None)
    \<and> (snd (ParseLLMResponse unmarshal rawResponse) = Some ErrLLMResponseJSONFind \<longleftrightarrow>
        \<not> (HasPrefix (TrimSpace rawResponse) ''{'' \<and> HasSuffix (TrimSpace rawResponse) ''}''))"
proof -
  from assms have n: "FindStringSubmatch rawResponse = None"
    by (rule unterminatedFence_no_match)
  then have c: "jsonCandidate rawResponse =
        (if HasPrefix (TrimSpace rawResponse) ''{'' \<and> HasSuffix (TrimSpace rawResponse) ''}''
         then Some (TrimSpace (TrimSpace rawResponse)) else None)"
    by (simp add: jsonCandidate_def Let_def)
  have "snd (ParseLLMResponse unmarshal rawResponse) = Some ErrLLMResponseJSONFind \<longleftrightarrow>
        jsonCandidate rawResponse = None"
    by (simp add: ParseLLMResponse_def split: option.splits sum.splits)
  with n c show ?thesis by simp
qed

theorem C3_unterminated_fence_falls_back_witness:
  "unterminatedFence brokenFenceSample \<and> jsonCandidate brokenFenceSample = None \<and>
   snd (ParseLLMResponse sampleDecoder brokenFenceSample) = Some ErrLLMResponseJSONFind"
proof -
  have u: "unterminatedFence brokenFenceSample" by code_simp
  have p: "\<not> HasPrefix (TrimSpace brokenFenceSample) ''{''" by code_simp
  from C3_unterminated_fence_falls_back [OF u, of sampleDecoder] p u show ?thesis by simp
qed

theorem C3_counterexample:
  "unterminatedFence fenceInsideSample \<and>
   jsonCandidate fenceInsideSample = Some fenceInsideSample \<and>
   snd (ParseLLMResponse sampleDecoder fenceInsideSample) \<noteq> Some ErrLLMResponseJSONFind"
  by code_simp

text \<open>
  Claim C2 at an input with two fenced blocks. The candidate starts at the opening brace
  of the first block and runs to the closing brace of the last block: it holds the
  closing fence of the first block, the text between the blocks, the opening fence of
  the second block and the object of the second block.
\<close>

theorem C2_two_blocks_candidate:
  \<open>jsonCandidate twoBlocksSample =
     Some ''{"a":1}\<newline>```\<newline>and\<newline>```json\<newline>{"b":2}''\<close>
  by code_simp


section \<open>Properties of the search command\<close>

text \<open>
  Claim C4, as the code has it. When the segments of a path lead, step by step, from
  the value given to a value \<open>w\<close>, \<open>getValueByPath\<close> reports found = true and
  returns \<open>w\<close> whatever \<open>w\<close> is, also when \<open>w\<close> is a nil pointer or a nil
  interface: the final value is not tested. A nil pointer or nil interface gives
  found = false only when a further segment remains to be resolved through it.
\<close>

theorem C4_final_value_not_tested:
  assumes "reaches EqualFold v parts w"
    and "parts \<noteq> []" and "\<forall>p\<in>set parts. CHR ''.'' \<notin> set p"
  shows "getValueByPath EqualFold (Some v) (Join parts ''.'') = (Interface w, True)
    \<and> (deref w = None \<longrightarrow> further \<noteq> [] \<longrightarrow> (\<forall>p\<in>set further. CHR ''.'' \<notin> set p) \<longrightarrow>
         getValueByPath EqualFold (Some v) (Join (parts @ further) ''.'') = (None, False))"
proof -
  have "Split (Join parts ''.'') CHR ''.'' = parts"
    using assms(2,3) by (rule Split_Join)
  moreover have "getValueRecursive EqualFold (Some v) parts = (Some w, True)"
    using reaches_getValueRecursive [OF assms(1), of "[]"] by simp
  ultimately have 1: "getValueByPath EqualFold (Some v) (Join parts ''.'') = (Interface w, True)"
    by (simp add: getValueByPath_def)
  have 2: "getValueByPath EqualFold (Some v) (Join (parts @ further) ''.'') = (None, False)"
    if d: "deref w = None" and m: "further \<noteq> []" and n: "\<forall>p\<in>set further. CHR ''.'' \<notin> set p"
  proof -
    have "Split (Join (parts @ further) ''.'') CHR ''.'' = parts @ further"
      using assms(2,3) n by (intro Split_Join) auto
    moreover from m obtain q qs where "further = q # qs" by (cases further) auto
    ultimately have
      "getValueRecursive EqualFold (Some v) (Split (Join (parts @ further) ''.'') CHR ''.'') =
        (None, False)"
      using reaches_getValueRecursive [OF assms(1), of further] d by simp
    then show ?thesis by (simp add: getValueByPath_def)
  qed
  from 1 2 show ?thesis by blast
qed

theorem C4_final_value_not_tested_witness:
  "getValueByPath asciiEqualFold (Some (testStruct None)) ''Nested'' = (Some (Ptr None), True) \<and>
   getValueByPath asciiEqualFold (Some (testStruct None)) ''Nested.Value'' = (None, False)"
proof -
  let ?fs = "[SField ''Key'' ''key'' True (Str ''value1''),
        SField ''Nested'' ''nested'' True (Ptr None),
        SField ''Map'' [] True
          (MapV [(''mapKey1'', Iface (Some (Str ''mapValue1''))),
                 (''nestedMap'', Iface (Some (MapV [(''innerKey'', Str ''innerValue'')])))]),
        SField ''SkipMe'' ''-'' True (Str ''should be skipped''),
        SField ''NoTag'' [] True (Str ''noTagValue'')]"
  have d: "deref (testStruct None) = Some (StructV ?fs)" by (simp add: testStruct_def)
  have l: "lookupField asciiEqualFold ?fs ''Nested'' =
      Some (SField ''Nested'' ''nested'' True (Ptr None))" by code_simp
  have h: "reaches asciiEqualFold (fieldValue (SField ''Nested'' ''nested'' True (Ptr None))) []
      (Ptr None)" by (simp add: reaches.here)
  have 0: "reaches asciiEqualFold (testStruct None) [''Nested''] (Ptr None)"
    using d l h by (rule reaches.field)
  have 1: "[''Nested''] \<noteq> []" by simp
  have 2: "\<forall>p\<in>set [''Nested'']. CHR ''.'' \<notin> set p" by simp
  have 4: "deref (Ptr None) = None" by simp
  have 5: "[''Value''] \<noteq> []" by simp
  have 6: "\<forall>p\<in>set [''Value'']. CHR ''.'' \<notin> set p" by simp
  from C4_final_value_not_tested [OF 0 1 2, of "[''Value'']"] 4 5 6 show ?thesis by simp
qed

theorem C4_counterexample:
  "getValueByPath asciiEqualFold (Some (testStruct None)) ''Nested'' = (Some (Ptr None), True)"
  by code_simp

text \<open>
  Claim C7. A struct member whose json tag is \<open>-\<close> is never the member a segment
  resolves to, neither through its name nor through a tag name; and when every member
  that the segment matches, by name up to case or by tag name, has the tag \<open>-\<close>, the
  segment resolves to found = false, whatever follows it in the path.
\<close>

theorem C7_excluded_member_not_resolvable:
  "(lookupField EqualFold fs part = Some fld \<longrightarrow> fld \<in> set fs \<and> jsonTag fld \<noteq> ''-'')
   \<and> ((\<forall>fld\<in>set fs. EqualFold (fieldName fld) part \<or> tagName fld = part \<longrightarrow> jsonTag fld = ''-'') \<longrightarrow>
        deref v = Some (StructV fs) \<longrightarrow>
          getValueRecursive EqualFold (Some v) (part # remainingParts) = (None, False)
          \<and> (CHR ''.'' \<notin> set part \<longrightarrow> getValueByPath EqualFold (Some v) part = (None, False)))"
proof -
  have 1: "lookupField EqualFold fs part = Some fld \<longrightarrow> fld \<in> set fs \<and> jsonTag fld \<noteq> ''-''"
    using lookupField_not_excluded by blast
  have 2: "getValueRecursive EqualFold (Some v) (part # rs) = (None, False)"
    if a: "\<forall>fld\<in>set fs. EqualFold (fieldName fld) part \<or> tagName fld = part \<longrightarrow> jsonTag fld = ''-''"
      and d: "deref v = Some (StructV fs)" for rs
  proof -
    have "lookupField EqualFold fs part = None"
    proof (cases "lookupField EqualFold fs part")
      case None
      then show ?thesis .
    next
      case (Some g)
      from lookupField_not_excluded [OF Some] lookupField_match [OF Some] a
      show ?thesis by blast
    qed
    with d show ?thesis by simp
  qed
  have 3: "getValueByPath EqualFold (Some v) part = (None, False)"
    if a: "\<forall>fld\<in>set fs. EqualFold (fieldName fld) part \<or> tagName fld = part \<longrightarrow> jsonTag fld = ''-''"
      and d: "deref v = Some (StructV fs)" and n: "CHR ''.'' \<notin> set part"
  proof -
    from n have "Split part CHR ''.'' = [part]" by (rule Split_no_sep)
    with 2 [OF a d, of "[]"] show ?thesis by (simp add: getValueByPath_def)
  qed
  from 1 2 3 show ?thesis by blast
qed

theorem C7_excluded_member_not_resolvable_witness:
  "getValueRecursive asciiEqualFold (Some (testStruct None)) [''SkipMe''] = (None, False) \<and>
   getValueByPath asciiEqualFold (Some (testStruct None)) ''SkipMe'' = (None, False)"
proof -
  let ?fs = "[SField ''Key'' ''key'' True (Str ''value1''),
        SField ''Nested'' ''nested'' True (Ptr None),
        SField ''Map'' [] True
          (MapV [(''mapKey1'', Iface (Some (Str ''mapValue1''))),
                 (''nestedMap'', Iface (Some (MapV [(''innerKey'', Str ''innerValue'')])))]),
        SField ''SkipMe'' ''-'' True (Str ''should be skipped''),
        SField ''NoTag'' [] True (Str ''noTagValue'')]"
  have a: "\<forall>fld\<in>set ?fs. asciiEqualFold (fieldName fld) ''SkipMe'' \<or> tagName fld = ''SkipMe'' \<longrightarrow>
      jsonTag fld = ''-''" by code_simp
  have d: "deref (testStruct None) = Some (StructV ?fs)" by (simp add: testStruct_def)
  have n: "CHR ''.'' \<notin> set ''SkipMe''" by simp
  from C7_excluded_member_not_resolvable
    [of asciiEqualFold ?fs "''SkipMe''" _ "testStruct None" "[]"] a d n
  show ?thesis by blast
qed

text \<open>
  Claim C8. In the format \<open>tsv\<close>, for every issue of the result and every selected
  field path: when the path resolves to not found, or to the value \<open>nil\<close>, the cell of
  that path in the row of that issue is the empty string.
\<close>

theorem C8_absent_or_null_cell_is_empty:
  assumes "k < length issues" and "j < length (selectTsvFields outputFieldsStr)"
    and "getValueByPath EqualFold (Some (reflectIssue (issues ! k)))
           (selectTsvFields outputFieldsStr ! j) = (value, found)"
    and "\<not> found \<or> value = None"
  shows "cells (tsvOutput Sprintf EqualFold outputFieldsStr issues ! Suc k) ! j = []"
proof -
  from assms(1) have "issues \<noteq> []" by auto
  with assms(1) have "tsvOutput Sprintf EqualFold outputFieldsStr issues ! Suc k =
      tsvRow Sprintf EqualFold (selectTsvFields outputFieldsStr) (issues ! k)"
    by (simp add: tsvOutput_def)
  then have "cells (tsvOutput Sprintf EqualFold outputFieldsStr issues ! Suc k) ! j =
      tsvCell Sprintf EqualFold (issues ! k) (selectTsvFields outputFieldsStr ! j)"
    using assms(2) by (simp add: cells_tsvRow [OF selectTsvFields_not_Nil])
  also have "\<dots> = []"
    using assms(3,4) by (auto simp: tsvCell_def split: option.splits)
  finally show ?thesis .
qed

theorem C8_absent_or_null_cell_is_empty_witness:
  "cells (tsvOutput sampleSprintf asciiEqualFold ''key,nope'' [sampleIssue] ! 1) ! 1 = []"
proof -
  have 1: "0 < length [sampleIssue]" by simp
  have 2: "1 < length (selectTsvFields ''key,nope'')" by code_simp
  have 3: "getValueByPath asciiEqualFold (Some (reflectIssue ([sampleIssue] ! 0)))
      (selectTsvFields ''key,nope'' ! 1) = (None, False)" by code_simp
  have 4: "\<not> False \<or> (None :: gvalue option) = None" by simp
  from C8_absent_or_null_cell_is_empty [OF 1 2 3 4, of sampleSprintf] show ?thesis by simp
qed

text \<open>
  Claim C9, as the code has it. In the format \<open>tsv\<close> with a result that is not empty,
  the output is the header followed by one row for each issue, and every row has
  exactly one cell for each selected field path, whatever the values hold. The header
  is the selected field paths joined by tabs as they were given: it has the same
  number of cells as the rows when no selected field path holds a tab.
\<close>

theorem C9_one_cell_per_field_path:
  assumes "issues \<noteq> []"
  shows "length (tl (tsvOutput Sprintf EqualFold outputFieldsStr issues)) = length issues
    \<and> (\<forall>row\<in>set (tl (tsvOutput Sprintf EqualFold outputFieldsStr issues)).
          length (cells row) = length (selectTsvFields outputFieldsStr))
    \<and> ((\<forall>fieldPath\<in>set (selectTsvFields outputFieldsStr). tab \<notin> set fieldPath) \<longrightarrow>
          length (cells (hd (tsvOutput Sprintf EqualFold outputFieldsStr issues))) =
          length (selectTsvFields outputFieldsStr))"
proof -
  have t: "tl (tsvOutput Sprintf EqualFold outputFieldsStr issues) =
      map (tsvRow Sprintf EqualFold (selectTsvFields outputFieldsStr)) issues"
    and h: "hd (tsvOutput Sprintf EqualFold outputFieldsStr issues) =
      Join (selectTsvFields outputFieldsStr) [tab]"
    using assms by (simp_all add: tsvOutput_def)
  have 1: "length (tl (tsvOutput Sprintf EqualFold outputFieldsStr issues)) = length issues"
    by (simp add: t)
  have 2: "\<forall>row\<in>set (tl (tsvOutput Sprintf EqualFold outputFieldsStr issues)).
          length (cells row) = length (selectTsvFields outputFieldsStr)"
    unfolding t by (auto simp: cells_tsvRow [OF selectTsvFields_not_Nil])
  have 3: "length (cells (hd (tsvOutput Sprintf EqualFold outputFieldsStr issues))) =
          length (selectTsvFields outputFieldsStr)"
    if "\<forall>fieldPath\<in>set (selectTsvFields outputFieldsStr). tab \<notin> set fieldPath"
    unfolding h cells_def using Split_Join [OF selectTsvFields_not_Nil that] by simp
  from 1 2 3 show ?thesis by blast
qed

theorem C9_one_cell_per_field_path_witness:
  "length (cells (tsvOutput sampleSprintf asciiEqualFold [] [sampleIssue, tabbedIssue] ! 2)) = 4 \<and>
   length (cells (hd (tsvOutput sampleSprintf asciiEqualFold [] [sampleIssue, tabbedIssue]))) = 4"
proof -
  let ?out = "tsvOutput sampleSprintf asciiEqualFold [] [sampleIssue, tabbedIssue]"
  have 1: "[sampleIssue, tabbedIssue] \<noteq> []" by simp
  have 2: "?out ! 2 \<in> set (tl ?out)" by (simp add: tsvOutput_def)
  have 3: "\<forall>fieldPath\<in>set (selectTsvFields []). tab \<notin> set fieldPath" by code_simp
  have 4: "length (selectTsvFields []) = 4" by code_simp
  from C9_one_cell_per_field_path [OF 1, of sampleSprintf asciiEqualFold "[]"] 2 3 4
  show ?thesis by simp
qed

theorem C9_counterexample:
  "length (cells (tsvOutput sampleSprintf asciiEqualFold tabbedFlag [sampleIssue] ! 0)) = 3 \<and>
   length (cells (tsvOutput sampleSprintf asciiEqualFold tabbedFlag [sampleIssue] ! 1)) = 2"
  by code_simp

text \<open>
  Claim C1, as the code has it. The projection is a Go map: it has exactly one entry
  for each distinct requested field path, holding the value the path resolves to or
  \<open>nil\<close>, and it does not record the order of the request, so two requests with the
  same set of field paths give the same projection. The JSON encoding writes its
  entries in the sorted order of the keys.
\<close>

theorem C1_projection_is_unordered:
  "dom (extractFields EqualFold issue fieldPaths) = set fieldPaths
   \<and> (\<forall>p\<in>set fieldPaths.
        extractFields EqualFold issue fieldPaths p =
          Some (case getValueByPath EqualFold (Some (reflectIssue issue)) p of
                  (value, found) \<Rightarrow> if found then value else None))
   \<and> (set fieldPaths = set fieldPaths' \<longrightarrow>
        extractFields EqualFold issue fieldPaths = extractFields EqualFold issue fieldPaths')
   \<and> jsonObjectKeys (extractFields EqualFold issue fieldPaths) = sort (remdups fieldPaths)"
proof -
  have 1: "dom (extractFields EqualFold issue fieldPaths) = set fieldPaths"
    by (rule dom_extractFields)
  have 2: "\<forall>p\<in>set fieldPaths.
        extractFields EqualFold issue fieldPaths p =
          Some (case getValueByPath EqualFold (Some (reflectIssue issue)) p of
                  (value, found) \<Rightarrow> if found then value else None)"
    by (simp add: extractFields_entries)
  have 3: "extractFields EqualFold issue fieldPaths = extractFields EqualFold issue fieldPaths'"
    if "set fieldPaths = set fieldPaths'"
    using that by (simp add: extractFields_entries)
  have 4: "jsonObjectKeys (extractFields EqualFold issue fieldPaths) = sort (remdups fieldPaths)"
    by (simp add: jsonObjectKeys_def dom_extractFields sorted_list_of_set_sort_remdups)
  from 1 2 3 4 show ?thesis by blast
qed

theorem C1_projection_is_unordered_witness:
  "extractFields asciiEqualFold sampleIssue [''key'', ''id''] =
     extractFields asciiEqualFold sampleIssue [''id'', ''key'', ''id''] \<and>
   extractFields asciiEqualFold sampleIssue [''key'', ''id''] ''key'' = Some (Some (Str ''PROJ-1''))"
proof -
  have 1: "set [''key'', ''id''] = set [''id'', ''key'', ''id'']" by auto
  have 2: "''key'' \<in> set [''key'', ''id'']" by simp
  have 3: "getValueByPath asciiEqualFold (Some (reflectIssue sampleIssue)) ''key'' =
      (Some (Str ''PROJ-1''), True)" by code_simp
  note t = C1_projection_is_unordered
    [of asciiEqualFold sampleIssue "[''key'', ''id'']" "[''id'', ''key'', ''id'']"]
  from t 1 have a: "extractFields asciiEqualFold sampleIssue [''key'', ''id''] =
     extractFields asciiEqualFold sampleIssue [''id'', ''key'', ''id'']" by blast
  from t 2 have "extractFields asciiEqualFold sampleIssue [''key'', ''id''] ''key'' =
      Some (case getValueByPath asciiEqualFold (Some (reflectIssue sampleIssue)) ''key'' of
              (value, found) \<Rightarrow> if found then value else None)" by blast
  with 3 have b: "extractFields asciiEqualFold sampleIssue [''key'', ''id''] ''key'' =
      Some (Some (Str ''PROJ-1''))" by simp
  from a b show ?thesis by (rule conjI)
qed

theorem C1_counterexample:
  "jsonObjectKeys (extractFields asciiEqualFold sampleIssue [''key'', ''id'']) = [''id'', ''key'']"
proof -
  have "jsonObjectKeys (extractFields asciiEqualFold sampleIssue [''key'', ''id'']) =
      sort (remdups [''key'', ''id''])"
    by (simp only: jsonObjectKeys_def dom_extractFields sorted_list_of_set_sort_remdups)
  also have "\<dots> = [''id'', ''key'']" by code_simp
  finally show ?thesis .
qed

end
